theory Spec2Isabelle
  imports Main "HOL-Library.Multiset" "HOL-Library.Char_ord" "HOL-Library.List_Lexorder"
begin

section \<open>Events\<close>

text \<open>
  A \<open>time.Time\<close> is an instant together with the zone it is shown in: \<open>instant\<close>
  counts nanoseconds from Go's zero time (January 1, year 1, 00:00:00 UTC), \<open>zone\<close> is
  the offset of the time's location at that instant, in seconds east of UTC. Two times
  with the same instant in different zones are the same moment shown on different wall
  clocks. \<open>IsZero\<close> is the test \<open>Emit\<close> uses to decide whether the caller has set the
  timestamp; it looks at the instant only.
\<close>

record Time =
  instant :: int
  zone :: int

definition IsZero :: "Time \<Rightarrow> bool" where
  "IsZero t = (instant t = 0)"

text \<open>
  \<open>type Event struct { Key string; Timestamp time.Time; Data map[string]interface{} }\<close>.
  The payload type is left open (\<open>'d\<close>): the code never looks inside it, it only hands
  it to \<open>json.Marshal\<close> and gets it back from \<open>json.Unmarshal\<close>.
\<close>

record 'd Event =
  Key :: string
  Timestamp :: Time
  Data :: 'd

section \<open>The store\<close>

text \<open>
  One row of the table \<open>tlytics (key TEXT NOT NULL, timestamp DATETIME NOT NULL, data TEXT)\<close>.
  The driver (\<open>sqlite3\<close>) binds a \<open>time.Time\<close> as a text, the time formatted with the
  layout \<open>2006-01-02 15:04:05.999999999-07:00\<close> (wall clock and zone offset), and that
  text is what the \<open>timestamp\<close> column holds and what the engine compares.
\<close>

record row =
  col_key :: string
  col_timestamp :: string
  col_data :: string

text \<open>
  \<open>type DB struct { conn *sql.DB; path string; mutex sync.Mutex }\<close>. The table is the
  list of its committed rows in insertion order; \<open>conn_open\<close> is false once \<open>Close\<close>
  has closed the connection, after which every statement fails. Every method holds
  \<open>db.mutex\<close> from entry to return, so each is one atomic function of the state.
\<close>

record DB =
  rows :: "row list"
  conn_open :: bool

datatype error = ErrConn | ErrMarshal | ErrExec | ErrUnmarshal

text \<open>
  What the code calls but does not contain: \<open>json.Marshal\<close> on an event's payload
  (\<open>None\<close>: it returns an error, as it does for a channel, a function or a NaN),
  \<open>json.Unmarshal\<close> of a stored text into a payload, whether the engine accepts
  one \<open>stmt.Exec\<close> of the prepared \<open>INSERT\<close>, the text the driver binds for a
  \<open>time.Time\<close> (\<open>time_Format\<close>), and the \<open>time.Time\<close> the driver makes of the
  text of a \<open>DATETIME\<close> column when a row is scanned (\<open>time_Scan\<close>: it tries its
  layouts in turn and gives the zero time, with no error, when none parses the text).
\<close>

record 'd env =
  json_Marshal :: "'d \<Rightarrow> string option"
  json_Unmarshal :: "string \<Rightarrow> 'd option"
  stmt_Exec :: "row \<Rightarrow> bool"
  time_Format :: "Time \<Rightarrow> string"
  time_Scan :: "string \<Rightarrow> Time"

definition Init :: "row list \<Rightarrow> DB" where
  "Init stored = \<lparr>rows = stored, conn_open = True\<rparr>"

definition Close :: "DB \<Rightarrow> DB" where
  "Close db = db\<lparr>conn_open := False\<rparr>"

text \<open>
  The loop of \<open>InsertEvents\<close>. \<open>tx\<close> holds the rows the open transaction has written
  so far; the first failing \<open>json.Marshal\<close> or \<open>stmt.Exec\<close> returns the error.
\<close>

fun insert_loop :: "'d env \<Rightarrow> 'd Event list \<Rightarrow> row list \<Rightarrow> error + row list" where
  "insert_loop E [] tx = Inr tx"
| "insert_loop E (event # events) tx =
     (case json_Marshal E (Data event) of
        None \<Rightarrow> Inl ErrMarshal
      | Some dataJSON \<Rightarrow>
          (let r = \<lparr>col_key = Key event, col_timestamp = time_Format E (Timestamp event),
                    col_data = dataJSON\<rparr>
           in if stmt_Exec E r then insert_loop E events (tx @ [r]) else Inl ErrExec))"

text \<open>
  \<open>InsertEvents\<close>: \<open>Begin\<close> fails on a closed connection; an error inside the loop
  returns through the deferred \<open>tx.Rollback()\<close>, which discards \<open>tx\<close>; only
  \<open>tx.Commit()\<close> after the whole loop appends the rows to the table. The result is the
  returned error (\<open>None\<close> for \<open>nil\<close>) and the store afterwards.
\<close>

definition InsertEvents :: "'d env \<Rightarrow> DB \<Rightarrow> 'd Event list \<Rightarrow> error option \<times> DB" where
  "InsertEvents E db events =
     (if \<not> conn_open db then (Some ErrConn, db)
      else (case insert_loop E events [] of
              Inl err \<Rightarrow> (Some err, db)
            | Inr tx \<Rightarrow> (None, db\<lparr>rows := rows db @ tx\<rparr>)))"

text \<open>
  \<open>ORDER BY timestamp DESC\<close>: the engine compares the stored texts byte by byte (a
  text that is a proper beginning of another comes before it) and returns the greatest
  first. Rows with equal texts are kept in insertion order here; the engine promises no
  particular order for them.
\<close>

definition order_by_timestamp_desc :: "row list \<Rightarrow> row list" where
  "order_by_timestamp_desc rs = rev (sort_key col_timestamp (rev rs))"

text \<open>
  \<open>LIMIT ? OFFSET ?\<close> as SQLite evaluates it (the driver is \<open>sqlite3\<close>): a negative
  \<open>OFFSET\<close> counts as zero, a negative \<open>LIMIT\<close> means no upper bound.
\<close>

definition limit_offset :: "int \<Rightarrow> int \<Rightarrow> 'a list \<Rightarrow> 'a list" where
  "limit_offset limit offset xs =
     (let ys = drop (nat offset) xs in if limit < 0 then ys else take (nat limit) ys)"

text \<open>
  The \<open>rows.Next()\<close> loop of \<open>GetEvents\<close>: each row is scanned into an event, its
  timestamp being what the driver makes of the stored text, and its \<open>data\<close> text is
  decoded; the first decoding failure returns the error.
\<close>

fun scan_rows :: "'d env \<Rightarrow> row list \<Rightarrow> 'd Event list \<Rightarrow> error + 'd Event list" where
  "scan_rows E [] events = Inr events"
| "scan_rows E (r # rs) events =
     (case json_Unmarshal E (col_data r) of
        None \<Rightarrow> Inl ErrUnmarshal
      | Some d \<Rightarrow>
          scan_rows E rs
            (events @ [\<lparr>Key = col_key r, Timestamp = time_Scan E (col_timestamp r), Data = d\<rparr>]))"

text \<open>
  \<open>GetEvents(limit, offset)\<close>: \<open>SELECT COUNT(*)\<close>, then the page query, then the scan.
  \<open>Inl\<close> is the source's \<open>(nil, 0, err)\<close>, \<open>Inr\<close> its \<open>(events, totalCount, nil)\<close>.
\<close>

definition GetEvents :: "'d env \<Rightarrow> DB \<Rightarrow> int \<Rightarrow> int \<Rightarrow> error + ('d Event list \<times> int)" where
  "GetEvents E db limit offset =
     (if \<not> conn_open db then Inl ErrConn
      else (let totalCount = int (length (rows db)) in
            case scan_rows E (limit_offset limit offset (order_by_timestamp_desc (rows db))) [] of
              Inl err \<Rightarrow> Inl err
            | Inr events \<Rightarrow> Inr (events, totalCount)))"

section \<open>The logger\<close>

text \<open>
  \<open>type Logger struct { db *DB; queue []Event; flushPeriod time.Duration;
  mutex sync.RWMutex; stopCh chan struct{}; wg sync.WaitGroup }\<close>.
  \<open>stopCh_closed\<close> is the state of the channel, \<open>wg\<close> the counter of the wait group
  (1 while the goroutine \<open>flushWorker\<close> runs, 0 once it has returned). \<open>sink_calls\<close>
  is a history variable: the batches passed to \<open>InsertEvents\<close>, one entry per call.
  The flush period only decides when the ticker fires; a tick is an event of its own here.
\<close>

record 'd Logger =
  db :: DB
  queue :: "'d Event list"
  stopCh_closed :: bool
  wg :: nat
  sink_calls :: "'d Event list list"

datatype panic = CloseOfClosedChannel

definition NewLogger :: "DB \<Rightarrow> 'd Logger" where
  "NewLogger d = \<lparr>db = d, queue = [], stopCh_closed = False, wg = 1, sink_calls = []\<rparr>"

text \<open>\<open>Emit\<close>: \<open>now\<close> is what \<open>time.Now()\<close> reads. The returned error is always \<open>nil\<close>.\<close>

definition Emit :: "Time \<Rightarrow> 'd Event \<Rightarrow> 'd Logger \<Rightarrow> error option \<times> 'd Logger" where
  "Emit now e l =
     (let e1 = (if IsZero (Timestamp e) then e\<lparr>Timestamp := now\<rparr> else e)
      in (None, l\<lparr>queue := queue l @ [e1]\<rparr>))"

text \<open>
  \<open>flush\<close> in its two parts. \<open>flush_locked\<close> is the section under \<open>l.mutex\<close>: on an
  empty queue it returns at once (\<open>None\<close>), otherwise it copies the queue into the local
  \<open>events\<close> and clears it. \<open>flush_insert\<close> is what follows the unlock: the call of
  \<open>InsertEvents\<close>, whose error is dropped (\<open>_ = err\<close>).
\<close>

definition flush_locked :: "'d Logger \<Rightarrow> 'd Event list option \<times> 'd Logger" where
  "flush_locked l =
     (if length (queue l) = 0 then (None, l)
      else (Some (queue l), l\<lparr>queue := []\<rparr>))"

definition flush_insert :: "'d env \<Rightarrow> 'd Event list \<Rightarrow> 'd Logger \<Rightarrow> 'd Logger" where
  "flush_insert E events l =
     l\<lparr>db := snd (InsertEvents E (db l) events), sink_calls := sink_calls l @ [events]\<rparr>"

definition flush :: "'d env \<Rightarrow> 'd Logger \<Rightarrow> 'd Logger" where
  "flush E l =
     (case flush_locked l of
        (None, l1) \<Rightarrow> l1
      | (Some events, l1) \<Rightarrow> flush_insert E events l1)"

definition Flush :: "'d env \<Rightarrow> 'd Logger \<Rightarrow> 'd Logger" where
  "Flush E l = flush E l"

text \<open>
  The ticker case of \<open>flushWorker\<close>'s \<open>select\<close>, run to its end: only a worker that
  has not returned receives the tick.
\<close>

definition ticker_fires :: "'d env \<Rightarrow> 'd Logger \<Rightarrow> 'd Logger" where
  "ticker_fires E l = (if wg l = 0 then l else flush E l)"

text \<open>
  \<open>Stop\<close> with the worker's answer run to its end: \<open>close(l.stopCh)\<close> panics on a
  closed channel; otherwise the worker takes the \<open>stopCh\<close> case, flushes a last time
  and returns (\<open>wg.Done()\<close>), and \<open>wg.Wait()\<close> lets \<open>Stop\<close> return.
\<close>

definition Stop :: "'d env \<Rightarrow> 'd Logger \<Rightarrow> panic + 'd Logger" where
  "Stop E l =
     (if stopCh_closed l then Inl CloseOfClosedChannel
      else (let l1 = l\<lparr>stopCh_closed := True\<rparr>;
                l2 = (if wg l1 = 0 then l1 else (flush E l1)\<lparr>wg := wg l1 - 1\<rparr>)
            in Inr l2))"

section \<open>The HTTP boundary\<close>

datatype response = BadRequest string | InternalServerError string | StatusOK nat

text \<open>
  The loop of \<open>handleEvents\<close>: \<open>Some\<close> response when the loop returns early. \<open>clock i\<close>
  is what \<open>time.Now()\<close> reads when the \<open>i\<close>-th event of the request is emitted.
\<close>

fun emit_each :: "(nat \<Rightarrow> Time) \<Rightarrow> nat \<Rightarrow> 'd Event list \<Rightarrow> 'd Logger \<Rightarrow> response option \<times> 'd Logger" where
  "emit_each clock i [] l = (None, l)"
| "emit_each clock i (event # events) l =
     (if Key event = [] then (Some (BadRequest ''Event key is required''), l)
      else (case Emit (clock i) event l of
              (Some err, l1) \<Rightarrow> (Some (InternalServerError ''Failed to emit event''), l1)
            | (None, l1) \<Rightarrow> emit_each clock (Suc i) events l1))"

text \<open>
  \<open>handleEvents\<close>: \<open>body\<close> is what \<open>c.ShouldBindJSON(&events)\<close> made of the request
  (\<open>None\<close>: it returned an error).
\<close>

definition handleEvents :: "(nat \<Rightarrow> Time) \<Rightarrow> 'd Event list option \<Rightarrow> 'd Logger \<Rightarrow> response \<times> 'd Logger" where
  "handleEvents clock body l =
     (case body of
        None \<Rightarrow> (BadRequest ''Invalid JSON format'', l)
      | Some events \<Rightarrow>
          (case emit_each clock 0 events l of
             (Some resp, l1) \<Rightarrow> (resp, l1)
           | (None, l1) \<Rightarrow> (StatusOK (length events), l1)))"

section \<open>The client\<close>

text \<open>
  \<open>type Client struct { serverURL string; httpClient *http.Client; queue []Event;
  flushPeriod time.Duration; mutex sync.RWMutex; stopCh chan struct{}; wg sync.WaitGroup }\<close>.
  \<open>posted\<close> is the history of the requests given to \<open>httpClient.Post\<close> (URL and body),
  \<open>send_calls\<close> the history of the batches given to \<open>sendEvents\<close>.
\<close>

record 'd Client =
  serverURL :: string
  c_queue :: "'d Event list"
  c_stopCh_closed :: bool
  c_wg :: nat
  send_calls :: "'d Event list list"
  posted :: "(string \<times> string) list"

text \<open>
  The network side: \<open>json.Marshal\<close> of a batch, and the answer to a POST
  (\<open>None\<close>: a transport error, \<open>Some\<close> the status code).
\<close>

record 'd net =
  json_Marshal_events :: "'d Event list \<Rightarrow> string option"
  http_Post :: "string \<Rightarrow> string \<Rightarrow> nat option"

datatype send_error = MarshalFailed | SendFailed | BadStatus nat

definition newHTTPClient :: "string \<Rightarrow> 'd Client" where
  "newHTTPClient url =
     \<lparr>serverURL = url, c_queue = [], c_stopCh_closed = False, c_wg = 1,
      send_calls = [], posted = []\<rparr>"

definition Client_Emit :: "Time \<Rightarrow> 'd Event \<Rightarrow> 'd Client \<Rightarrow> error option \<times> 'd Client" where
  "Client_Emit now e c =
     (let e1 = (if IsZero (Timestamp e) then e\<lparr>Timestamp := now\<rparr> else e)
      in (None, c\<lparr>c_queue := c_queue c @ [e1]\<rparr>))"

definition sendEvents :: "'d net \<Rightarrow> 'd Event list \<Rightarrow> 'd Client \<Rightarrow> send_error option \<times> 'd Client" where
  "sendEvents N events c =
     (case json_Marshal_events N events of
        None \<Rightarrow> (Some MarshalFailed, c)
      | Some jsonData \<Rightarrow>
          (let url = serverURL c @ ''/events'';
               c1 = c\<lparr>posted := posted c @ [(url, jsonData)]\<rparr>
           in (case http_Post N url jsonData of
                 None \<Rightarrow> (Some SendFailed, c1)
               | Some status \<Rightarrow>
                   if status \<noteq> 200 then (Some (BadStatus status), c1) else (None, c1))))"

definition Client_flush :: "'d net \<Rightarrow> 'd Client \<Rightarrow> 'd Client" where
  "Client_flush N c =
     (if length (c_queue c) = 0 then c
      else (let events = c_queue c;
                c1 = c\<lparr>c_queue := []\<rparr>;
                c2 = c1\<lparr>send_calls := send_calls c1 @ [events]\<rparr>
            in snd (sendEvents N events c2)))"

definition Client_Flush :: "'d net \<Rightarrow> 'd Client \<Rightarrow> 'd Client" where
  "Client_Flush N c = Client_flush N c"

definition Client_Stop :: "'d net \<Rightarrow> 'd Client \<Rightarrow> panic + 'd Client" where
  "Client_Stop N c =
     (if c_stopCh_closed c then Inl CloseOfClosedChannel
      else (let c1 = c\<lparr>c_stopCh_closed := True\<rparr>;
                c2 = (if c_wg c1 = 0 then c1 else (Client_flush N c1)\<lparr>c_wg := c_wg c1 - 1\<rparr>)
            in Inr c2))"

text \<open>The ticker case of the client's \<open>flushWorker\<close>, as for the logger.\<close>

definition Client_ticker_fires :: "'d net \<Rightarrow> 'd Client \<Rightarrow> 'd Client" where
  "Client_ticker_fires N c = (if c_wg c = 0 then c else Client_flush N c)"

section \<open>Auxiliary notions for the statements\<close>

text \<open>
  The row one pass through the loop of \<open>InsertEvents\<close> writes for an event, \<open>None\<close>
  when that pass fails (the payload does not serialize, or the engine refuses the row).
\<close>

definition row_of :: "'d env \<Rightarrow> 'd Event \<Rightarrow> row option" where
  "row_of E event =
     (case json_Marshal E (Data event) of
        None \<Rightarrow> None
      | Some dataJSON \<Rightarrow>
          (let r = \<lparr>col_key = Key event, col_timestamp = time_Format E (Timestamp event),
                    col_data = dataJSON\<rparr>
           in if stmt_Exec E r then Some r else None))"

text \<open>
  The times of the examples: \<open>utc k\<close> is \<open>k\<close> seconds past midnight of January 1,
  2024 in UTC (63839664000 seconds after the zero time), and \<open>east k\<close> is the time at
  which a wall clock two hours east of UTC shows \<open>k\<close> seconds past that midnight, two
  hours earlier. \<open>demo_times\<close> lists them, for \<open>k\<close> below 10, with the text the driver
  binds for each.
\<close>

definition zero_time :: Time where
  "zero_time = \<lparr>instant = 0, zone = 0\<rparr>"

definition utc :: "nat \<Rightarrow> Time" where
  "utc k = \<lparr>instant = (63839664000 + int k) * 1000000000, zone = 0\<rparr>"

definition east :: "nat \<Rightarrow> Time" where
  "east k = \<lparr>instant = (63839664000 + int k - 7200) * 1000000000, zone = 7200\<rparr>"

definition demo_times :: "(Time \<times> string) list" where
  "demo_times =
     map (\<lambda>k. (utc k, ''2024-01-01 00:00:0'' @ [''0123456789'' ! k] @ ''+00:00'')) [0..<10]
     @ map (\<lambda>k. (east k, ''2024-01-01 00:00:0'' @ [''0123456789'' ! k] @ ''+02:00'')) [0..<10]"

text \<open>
  A concrete environment to run the model on: a payload is either a text, serialized as
  itself, or \<open>Chan\<close>, a value \<open>json.Marshal\<close> rejects; the engine accepts every row;
  the times of \<open>demo_times\<close> are formatted and scanned as listed there. The examples use
  no other times (for which this environment answers with the zero time and its text).
\<close>

datatype payload = Text string | Chan

definition demo_env :: "payload env" where
  "demo_env =
     \<lparr>json_Marshal = (\<lambda>d. case d of Text s \<Rightarrow> Some s | Chan \<Rightarrow> None),
      json_Unmarshal = (\<lambda>s. Some (Text s)),
      stmt_Exec = (\<lambda>r. True),
      time_Format =
        (\<lambda>t. case map_of demo_times t of
                Some s \<Rightarrow> s | None \<Rightarrow> ''0001-01-01 00:00:00+00:00''),
      time_Scan =
        (\<lambda>s. case map_of (map (\<lambda>(t, s). (s, t)) demo_times) s of
                Some t \<Rightarrow> t | None \<Rightarrow> zero_time)\<rparr>"

text \<open>
  The network counterpart of \<open>demo_env\<close>: a batch holding a \<open>Chan\<close> does not
  serialize, any other is sent as the sequence of its keys, and the server answers 200.
\<close>

definition demo_net :: "payload net" where
  "demo_net =
     \<lparr>json_Marshal_events =
        (\<lambda>es. if \<exists>e\<in>set es. Data e = Chan then None else Some (concat (map Key es))),
      http_Post = (\<lambda>url body. Some 200)\<rparr>"

text \<open>
  What \<open>Emit\<close> appends for an event: the event, with the clock's reading as its
  timestamp if it came without one. \<open>stamp_all\<close> does so for the events of one request,
  the \<open>i\<close>-th with the reading \<open>clock i\<close>.
\<close>

definition stamp :: "Time \<Rightarrow> 'd Event \<Rightarrow> 'd Event" where
  "stamp now e = (if IsZero (Timestamp e) then e\<lparr>Timestamp := now\<rparr> else e)"

fun stamp_all :: "(nat \<Rightarrow> Time) \<Rightarrow> nat \<Rightarrow> 'd Event list \<Rightarrow> 'd Event list" where
  "stamp_all clock i [] = []"
| "stamp_all clock i (e # es) = stamp (clock i) e # stamp_all clock (Suc i) es"

text \<open>
  Sequences of calls on one instance, made one after the other: an \<open>Emit\<close>, a manual
  \<open>Flush\<close>, or a tick of the worker's ticker.
\<close>

datatype 'd op = OpEmit Time "'d Event" | OpFlush | OpTick

fun apply_op :: "'d env \<Rightarrow> 'd Logger \<Rightarrow> 'd op \<Rightarrow> 'd Logger" where
  "apply_op E l (OpEmit now e) = snd (Emit now e l)"
| "apply_op E l OpFlush = Flush E l"
| "apply_op E l OpTick = ticker_fires E l"

definition run :: "'d env \<Rightarrow> 'd Logger \<Rightarrow> 'd op list \<Rightarrow> 'd Logger" where
  "run E l ops = foldl (apply_op E) l ops"

fun Client_apply_op :: "'d net \<Rightarrow> 'd Client \<Rightarrow> 'd op \<Rightarrow> 'd Client" where
  "Client_apply_op N c (OpEmit now e) = snd (Client_Emit now e c)"
| "Client_apply_op N c OpFlush = Client_Flush N c"
| "Client_apply_op N c OpTick = Client_ticker_fires N c"

definition Client_run :: "'d net \<Rightarrow> 'd Client \<Rightarrow> 'd op list \<Rightarrow> 'd Client" where
  "Client_run N c ops = foldl (Client_apply_op N) c ops"

text \<open>
  The event the scan loop of \<open>GetEvents\<close> makes of a row, \<open>None\<close> when the row's text
  does not decode; and what an event reads back as once it has been inserted.
\<close>

definition event_of :: "'d env \<Rightarrow> row \<Rightarrow> 'd Event option" where
  "event_of E r =
     (case json_Unmarshal E (col_data r) of
        None \<Rightarrow> None
      | Some d \<Rightarrow>
          Some \<lparr>Key = col_key r, Timestamp = time_Scan E (col_timestamp r), Data = d\<rparr>)"


text \<open>The page a call of \<open>GetEvents\<close> returned; no events when it returned an error.\<close>

definition page_events :: "error + ('d Event list \<times> int) \<Rightarrow> 'd Event list" where
  "page_events res = (case res of Inl err \<Rightarrow> [] | Inr (events, totalCount) \<Rightarrow> events)"



text \<open>
  Five rows with increasing timestamps, all in UTC, as the pagination test stores them
  one after the other.
\<close>

definition demo_row :: "string \<Rightarrow> string \<Rightarrow> string \<Rightarrow> row" where
  "demo_row k ts x = \<lparr>col_key = k, col_timestamp = ts, col_data = x\<rparr>"

definition demo_rows :: "row list" where
  "demo_rows =
     [demo_row ''p'' ''2024-01-01 00:00:00+00:00'' ''0'',
      demo_row ''p'' ''2024-01-01 00:00:01+00:00'' ''1'',
      demo_row ''p'' ''2024-01-01 00:00:02+00:00'' ''2'',
      demo_row ''p'' ''2024-01-01 00:00:03+00:00'' ''3'',
      demo_row ''p'' ''2024-01-01 00:00:04+00:00'' ''4'']"

definition demo_event :: "string \<Rightarrow> Time \<Rightarrow> string \<Rightarrow> payload Event" where
  "demo_event k t x = \<lparr>Key = k, Timestamp = t, Data = Text x\<rparr>"

text \<open>
  Five events numbered 0 to 4 at strictly increasing instants, as a client two hours east
  of UTC (events 0 to 3, one second apart) and a client in UTC (event 4, two hours after
  event 0 less a second) would post them to \<open>/events\<close> with RFC 3339 timestamps
  \<open>2024-01-01T00:00:01+02:00\<close>, ..., \<open>2024-01-01T00:00:04+02:00\<close> and
  \<open>2024-01-01T00:00:00Z\<close>.
\<close>

definition demo_mixed_events :: "payload Event list" where
  "demo_mixed_events =
     [demo_event ''p'' (east 1) ''0'', demo_event ''p'' (east 2) ''1'',
      demo_event ''p'' (east 3) ''2'', demo_event ''p'' (east 4) ''3'',
      demo_event ''p'' (utc 0) ''4'']"

section \<open>The goroutines\<close>

text \<open>
  The logger together with its goroutines, one atomic action at a time. An action is a
  section under \<open>l.mutex\<close> or under \<open>db.mutex\<close>, or one operation on \<open>stopCh\<close> or on
  the wait group; what a goroutine does in between touches nothing shared.

  \<open>worker\<close> says where \<open>flushWorker\<close> is: blocked in its \<open>select\<close>; inside \<open>flush\<close>
  after the unlock and before \<open>InsertEvents\<close> has returned, holding its local \<open>events\<close>
  (the flag tells whether this is the flush of the \<open>stopCh\<close> case); or returned, its
  deferred \<open>wg.Done()\<close> run.
\<close>

datatype 'd worker = AtSelect | InFlush "'d Event list" bool | WorkerReturned

text \<open>
  Where the goroutine that calls \<open>Stop\<close> is: not there yet, past \<open>close(l.stopCh)\<close>
  and blocked in \<open>l.wg.Wait()\<close>, or returned.
\<close>

datatype caller = NotCalled | InWait | StopReturned

text \<open>
  \<open>in_flight\<close> holds the local \<open>events\<close> of the manual \<open>Flush\<close> calls, made by any
  other goroutines, that have left the locked section and not yet called
  \<open>InsertEvents\<close>. \<open>emitted\<close> and \<open>emitted_before_stop\<close> are history variables:
  every event appended to the queue so far, in order, and how many of them there were
  when \<open>Stop\<close> was called.
\<close>

record 'd system =
  logger :: "'d Logger"
  worker :: "'d worker"
  stop_call :: caller
  in_flight :: "'d Event list list"
  emitted :: "'d Event list"
  emitted_before_stop :: nat

definition start_system :: "DB \<Rightarrow> 'd system" where
  "start_system d =
     \<lparr>logger = NewLogger d, worker = AtSelect, stop_call = NotCalled, in_flight = [],
      emitted = [], emitted_before_stop = 0\<rparr>"

text \<open>
  The actions: a call of \<open>Emit\<close>; the worker taking the ticker case, or the \<open>stopCh\<close>
  case, and running the locked section of \<open>flush\<close>; the worker calling \<open>InsertEvents\<close>
  with the batch it holds, and after its last flush returning; \<open>Stop\<close> closing the
  channel; \<open>wg.Wait()\<close> letting \<open>Stop\<close> return; a manual \<open>Flush\<close> running its locked
  section; and the \<open>i\<close>-th manual \<open>Flush\<close> in flight calling \<open>InsertEvents\<close>.
\<close>

datatype 'd action =
    A_Emit Time "'d Event"
  | A_Tick
  | A_StopCase
  | A_WorkerInsert
  | A_StopCall
  | A_StopReturn
  | A_FlushLocked
  | A_FlushInsert nat

text \<open>
  \<open>act\<close> gives the state after an action, \<open>None\<close> when the action cannot happen there
  (for \<open>A_StopCall\<close> on a closed channel: the call panics). With \<open>stopCh\<close> closed and a
  tick pending, \<open>select\<close> may take either case, so \<open>A_Tick\<close> stays possible then.
\<close>

fun act :: "'d env \<Rightarrow> 'd system \<Rightarrow> 'd action \<Rightarrow> 'd system option" where
  "act E s (A_Emit now e) =
     Some (s\<lparr>logger := snd (Emit now e (logger s)), emitted := emitted s @ [stamp now e]\<rparr>)"
| "act E s A_Tick =
     (if worker s \<noteq> AtSelect then None
      else (case flush_locked (logger s) of
              (None, l1) \<Rightarrow> Some (s\<lparr>logger := l1\<rparr>)
            | (Some events, l1) \<Rightarrow> Some (s\<lparr>logger := l1, worker := InFlush events False\<rparr>)))"
| "act E s A_StopCase =
     (if worker s \<noteq> AtSelect \<or> \<not> stopCh_closed (logger s) then None
      else (case flush_locked (logger s) of
              (None, l1) \<Rightarrow> Some (s\<lparr>logger := l1\<lparr>wg := wg l1 - 1\<rparr>, worker := WorkerReturned\<rparr>)
            | (Some events, l1) \<Rightarrow> Some (s\<lparr>logger := l1, worker := InFlush events True\<rparr>)))"
| "act E s A_WorkerInsert =
     (case worker s of
        InFlush events final \<Rightarrow>
          (let l1 = flush_insert E events (logger s)
           in if final then Some (s\<lparr>logger := l1\<lparr>wg := wg l1 - 1\<rparr>, worker := WorkerReturned\<rparr>)
              else Some (s\<lparr>logger := l1, worker := AtSelect\<rparr>))
      | _ \<Rightarrow> None)"
| "act E s A_StopCall =
     (if stopCh_closed (logger s) then None
      else Some (s\<lparr>logger := (logger s)\<lparr>stopCh_closed := True\<rparr>, stop_call := InWait,
                   emitted_before_stop := length (emitted s)\<rparr>))"
| "act E s A_StopReturn =
     (if stop_call s = InWait \<and> wg (logger s) = 0 then Some (s\<lparr>stop_call := StopReturned\<rparr>)
      else None)"
| "act E s A_FlushLocked =
     (case flush_locked (logger s) of
        (None, l1) \<Rightarrow> Some (s\<lparr>logger := l1\<rparr>)
      | (Some events, l1) \<Rightarrow> Some (s\<lparr>logger := l1, in_flight := in_flight s @ [events]\<rparr>))"
| "act E s (A_FlushInsert i) =
     (if i < length (in_flight s)
      then Some (s\<lparr>logger := flush_insert E (in_flight s ! i) (logger s),
                   in_flight := take i (in_flight s) @ drop (Suc i) (in_flight s)\<rparr>)
      else None)"

fun exec :: "'d env \<Rightarrow> 'd system \<Rightarrow> 'd action list \<Rightarrow> 'd system option" where
  "exec E s [] = Some s"
| "exec E s (a # as) = (case act E s a of None \<Rightarrow> None | Some s1 \<Rightarrow> exec E s1 as)"

text \<open>
  For the invariant: the batch the worker holds; whether the worker has begun (or ended)
  its last flush; whether the store takes every event of a batch; and the rows the
  batches handed to the store so far have left in it.
\<close>

fun held :: "'d worker \<Rightarrow> 'd Event list" where
  "held (InFlush events final) = events"
| "held w = []"

fun last_flush :: "'d worker \<Rightarrow> bool" where
  "last_flush AtSelect = False"
| "last_flush (InFlush events final) = final"
| "last_flush WorkerReturned = True"

definition batch_ok :: "'d env \<Rightarrow> 'd Event list \<Rightarrow> bool" where
  "batch_ok E events = list_all (\<lambda>e. row_of E e \<noteq> None) events"

definition stored_rows :: "'d env \<Rightarrow> 'd Event list list \<Rightarrow> row list" where
  "stored_rows E batches = concat (map (List.map_filter (row_of E)) (filter (batch_ok E) batches))"

definition invariant :: "'d env \<Rightarrow> DB \<Rightarrow> 'd system \<Rightarrow> bool" where
  "invariant E d s \<longleftrightarrow>
     mset (emitted s) =
       mset (concat (sink_calls (logger s))) + mset (held (worker s))
       + mset (concat (in_flight s)) + mset (queue (logger s))
     \<and> emitted_before_stop s \<le> length (emitted s)
     \<and> wg (logger s) = (if worker s = WorkerReturned then 0 else 1)
     \<and> (stop_call s = StopReturned \<longrightarrow> worker s = WorkerReturned)
     \<and> (last_flush (worker s) \<longrightarrow>
          stopCh_closed (logger s)
          \<and> mset (queue (logger s)) \<subseteq># mset (drop (emitted_before_stop s) (emitted s)))
     \<and> conn_open (db (logger s)) = conn_open d
     \<and> (conn_open d \<longrightarrow> rows (db (logger s)) = rows d @ stored_rows E (sink_calls (logger s)))"

section \<open>Facts about the loops\<close>

lemma insert_loop_fails:
  "\<exists>e\<in>set events. row_of E e = None \<Longrightarrow> \<exists>err. insert_loop E events tx = Inl err"
  by (induction events arbitrary: tx) (auto simp: row_of_def Let_def split: option.splits if_splits)

lemma insert_loop_succeeds:
  "\<forall>e\<in>set events. row_of E e \<noteq> None \<Longrightarrow>
   \<exists>rs. insert_loop E events tx = Inr (tx @ rs) \<and> map Some rs = map (row_of E) events"
proof (induction events arbitrary: tx)
  case Nil
  then show ?case by simp
next
  case (Cons e es)
  from Cons.prems obtain r where r: "row_of E e = Some r" by auto
  from Cons.prems have "\<forall>x\<in>set es. row_of E x \<noteq> None" by simp
  from Cons.IH[OF this, of "tx @ [r]"] obtain rs where
    rs: "insert_loop E es (tx @ [r]) = Inr ((tx @ [r]) @ rs)" "map Some rs = map (row_of E) es"
    by blast
  from r have step: "insert_loop E (e # es) tx = insert_loop E es (tx @ [r])"
    by (auto simp: row_of_def Let_def split: option.splits if_splits)
  show ?case
    unfolding step using rs r by (intro exI[of _ "r # rs"]) simp
qed

lemma length_order_by: "length (order_by_timestamp_desc rs) = length rs"
  by (simp add: order_by_timestamp_desc_def)

lemma Emit_eq: "Emit now e l = (None, l\<lparr>queue := queue l @ [stamp now e]\<rparr>)"
  by (simp add: Emit_def stamp_def Let_def)

lemma map_filter_all:
  "\<forall>x\<in>set xs. f x \<noteq> None \<Longrightarrow> List.map_filter f xs = map (\<lambda>x. the (f x)) xs"
  by (induction xs) (auto simp: List.map_filter_simps)

lemma scan_rows_all:
  "\<forall>r\<in>set rs. event_of E r \<noteq> None \<Longrightarrow>
   scan_rows E rs acc = Inr (acc @ List.map_filter (event_of E) rs)"
  by (induction rs arbitrary: acc)
     (auto simp: event_of_def List.map_filter_simps split: option.splits)

section \<open>The batch insert\<close>

text \<open>
  C2. Batch-insert atomicity. If any event of the batch fails (its payload does not
  serialize, or its row is refused), \<open>InsertEvents\<close> returns an error and the store is
  exactly what it was: no row of the batch is visible. It returns without error exactly
  when the connection is open and every event's row was written, and then the store
  has gained the rows of the whole batch, in order, and nothing else.
\<close>

theorem InsertEvents_atomic:
  "((\<exists>e\<in>set events. json_Marshal E (Data e) = None \<or> row_of E e = None) \<longrightarrow>
      (\<exists>err. InsertEvents E d events = (Some err, d)))
   \<and> (fst (InsertEvents E d events) = None \<longleftrightarrow>
        conn_open d \<and> (\<forall>e\<in>set events. row_of E e \<noteq> None))
   \<and> (fst (InsertEvents E d events) \<noteq> None \<longrightarrow> snd (InsertEvents E d events) = d)
   \<and> (fst (InsertEvents E d events) = None \<longrightarrow>
        (\<exists>rs. snd (InsertEvents E d events) = d\<lparr>rows := rows d @ rs\<rparr>
              \<and> map Some rs = map (row_of E) events))"
proof -
  have m: "row_of E e = Some y \<Longrightarrow> \<exists>s. json_Marshal E (Data e) = Some s" for e y
    by (simp add: row_of_def split: option.splits)
  show ?thesis
  proof (cases "\<forall>e\<in>set events. row_of E e \<noteq> None")
    case True
    from insert_loop_succeeds[OF True, of "[]"] obtain rs where
      "insert_loop E events [] = Inr rs" "map Some rs = map (row_of E) events" by auto
    with True show ?thesis
      by (auto simp: InsertEvents_def dest: m)
  next
    case False
    then have "\<exists>e\<in>set events. row_of E e = None" by auto
    from insert_loop_fails[OF this, of "[]"] obtain err where
      "insert_loop E events [] = Inl err" by blast
    with False show ?thesis
      by (auto simp: InsertEvents_def)
  qed
qed

theorem InsertEvents_atomic_witness:
  "row_of demo_env \<lparr>Key = ''b'', Timestamp = utc 2, Data = Chan\<rparr> = None
   \<and> InsertEvents demo_env (Init [])
        [demo_event ''a'' (utc 1) ''x'', \<lparr>Key = ''b'', Timestamp = utc 2, Data = Chan\<rparr>]
      = (Some ErrMarshal, Init [])
   \<and> InsertEvents demo_env (Init [])
        [demo_event ''a'' (utc 1) ''x'', demo_event ''b'' (utc 2) ''y'']
      = (None, Init [demo_row ''a'' ''2024-01-01 00:00:01+00:00'' ''x'',
                     demo_row ''b'' ''2024-01-01 00:00:02+00:00'' ''y''])"
  using InsertEvents_atomic[of
      "[demo_event ''a'' (utc 1) ''x'', \<lparr>Key = ''b'', Timestamp = utc 2, Data = Chan\<rparr>]"
      demo_env "Init []"]
  by (simp add: InsertEvents_def row_of_def demo_env_def Init_def demo_event_def demo_row_def
        demo_times_def utc_def east_def upt_rec)

section \<open>Page arguments\<close>

text \<open>
  C5, as stated, fails: with two rows stored, a limit of \<open>-1\<close> returns both of them, and
  an offset of \<open>-1\<close> with limit 1 returns the newest one; neither page is empty.
\<close>

theorem GetEvents_negative_limit_counterexample:
  "GetEvents demo_env
      (Init [demo_row ''a'' ''2024-01-01 00:00:01+00:00'' ''x'',
             demo_row ''b'' ''2024-01-01 00:00:02+00:00'' ''y'']) (- 1) 0 =
     Inr ([demo_event ''b'' (utc 2) ''y'', demo_event ''a'' (utc 1) ''x''], 2)
   \<and> GetEvents demo_env
      (Init [demo_row ''a'' ''2024-01-01 00:00:01+00:00'' ''x'',
             demo_row ''b'' ''2024-01-01 00:00:02+00:00'' ''y'']) 1 (- 1) =
     Inr ([demo_event ''b'' (utc 2) ''y''], 2)"
  by (simp add: GetEvents_def Init_def limit_offset_def order_by_timestamp_desc_def demo_env_def
        demo_event_def demo_row_def demo_times_def utc_def east_def upt_rec)

text \<open>
  C5, amended. On an open store, a limit of 0 or an offset at or beyond the row count
  gives an empty page and no error; whenever \<open>GetEvents\<close> returns, \<open>totalCount\<close> is
  the full row count, whatever the limit and offset; a negative offset gives what offset
  0 gives, and a negative limit gives what a limit of the whole row count gives.
\<close>

theorem GetEvents_page_arguments:
  "conn_open d \<Longrightarrow>
   ((limit = 0 \<or> int (length (rows d)) \<le> offset) \<longrightarrow>
      GetEvents E d limit offset = Inr ([], int (length (rows d))))
   \<and> (GetEvents E d limit offset = Inr (events, totalCount) \<longrightarrow> totalCount = int (length (rows d)))
   \<and> (offset < 0 \<longrightarrow> GetEvents E d limit offset = GetEvents E d limit 0)
   \<and> (limit < 0 \<longrightarrow> GetEvents E d limit offset = GetEvents E d (int (length (rows d))) offset)"
  by (auto simp: GetEvents_def limit_offset_def Let_def length_order_by split: sum.splits)

theorem GetEvents_page_arguments_witness:
  "conn_open (Init [demo_row ''a'' ''2024-01-01 00:00:01+00:00'' ''x''])
   \<and> GetEvents demo_env (Init [demo_row ''a'' ''2024-01-01 00:00:01+00:00'' ''x'']) 0 0 =
       Inr ([], 1)
   \<and> GetEvents demo_env (Init [demo_row ''a'' ''2024-01-01 00:00:01+00:00'' ''x'']) 3 1 =
       Inr ([], 1)"
  using GetEvents_page_arguments[of "Init [demo_row ''a'' ''2024-01-01 00:00:01+00:00'' ''x'']"
      0 0 demo_env]
    GetEvents_page_arguments[of "Init [demo_row ''a'' ''2024-01-01 00:00:01+00:00'' ''x'']"
      3 1 demo_env]
  by (simp add: Init_def)

section \<open>Validation of the key\<close>

lemma Key_stamp: "Key (stamp now e) = Key e"
  by (simp add: stamp_def)

lemma emit_each_eq:
  "emit_each clock i events l =
     (if \<exists>e\<in>set events. Key e = [] then Some (BadRequest ''Event key is required'') else None,
      l\<lparr>queue := queue l @ stamp_all clock i (takeWhile (\<lambda>e. Key e \<noteq> []) events)\<rparr>)"
  by (induction events arbitrary: i l) (simp_all add: Emit_eq)

lemma Key_stamp_all: "e \<in> set (stamp_all clock i es) \<Longrightarrow> \<exists>x\<in>set es. Key e = Key x"
  by (induction es arbitrary: i) (auto simp: Key_stamp)

text \<open>
  C8, as stated, fails: \<open>Emit\<close> of the logger and of the client take an event with an
  empty key, return no error and append it to the queue.
\<close>

theorem empty_key_counterexample:
  "Emit (utc 5) \<lparr>Key = [], Timestamp = zero_time, Data = Text ''x''\<rparr> (NewLogger (Init [])) =
     (None, \<lparr>db = Init [], queue = [\<lparr>Key = [], Timestamp = utc 5, Data = Text ''x''\<rparr>],
             stopCh_closed = False, wg = 1, sink_calls = []\<rparr>)
   \<and> Client_Emit (utc 5) \<lparr>Key = [], Timestamp = zero_time, Data = Text ''x''\<rparr>
        (newHTTPClient ''http://h'') =
     (None, \<lparr>serverURL = ''http://h'',
             c_queue = [\<lparr>Key = [], Timestamp = utc 5, Data = Text ''x''\<rparr>],
             c_stopCh_closed = False, c_wg = 1, send_calls = [], posted = []\<rparr>)"
  by (simp add: Emit_def Client_Emit_def NewLogger_def newHTTPClient_def IsZero_def zero_time_def)

text \<open>
  C8, amended. The empty key is refused at the HTTP boundary only: \<open>handleEvents\<close>
  answers 400 ``Event key is required'' as soon as it meets an event with an empty key,
  and what it has appended to the queue are the events before that one, none of which
  has an empty key; with no such event it queues them all and answers 200. \<open>Emit\<close> of
  the logger and of the client do not look at the key: they return no error and append
  the event, its key unchanged.
\<close>

theorem empty_key_rejected_at_http_boundary:
  "handleEvents clock (Some events) l =
     (if \<exists>e\<in>set events. Key e = [] then BadRequest ''Event key is required''
      else StatusOK (length events),
      l\<lparr>queue := queue l @ stamp_all clock 0 (takeWhile (\<lambda>e. Key e \<noteq> []) events)\<rparr>)
   \<and> (\<forall>e\<in>set (stamp_all clock 0 (takeWhile (\<lambda>e. Key e \<noteq> []) events)). Key e \<noteq> [])
   \<and> Emit now e l = (None, l\<lparr>queue := queue l @ [stamp now e]\<rparr>)
   \<and> Client_Emit now e c = (None, c\<lparr>c_queue := c_queue c @ [stamp now e]\<rparr>)
   \<and> Key (stamp now e) = Key e"
proof -
  have "Key x \<noteq> []" if "x \<in> set (stamp_all clock 0 (takeWhile (\<lambda>e. Key e \<noteq> []) events))" for x
  proof -
    from Key_stamp_all[OF that] obtain y where
      "y \<in> set (takeWhile (\<lambda>e. Key e \<noteq> []) events)" "Key x = Key y" by blast
    then show ?thesis using set_takeWhileD[of y "\<lambda>e. Key e \<noteq> []" events] by simp
  qed
  then show ?thesis
    by (simp add: handleEvents_def emit_each_eq Emit_eq Key_stamp Client_Emit_def stamp_def Let_def)
qed

theorem empty_key_rejected_at_http_boundary_witness:
  "handleEvents utc
      (Some [demo_event ''a'' zero_time ''x'',
             \<lparr>Key = [], Timestamp = zero_time, Data = Text ''y''\<rparr>,
             demo_event ''c'' zero_time ''z''])
      (NewLogger (Init [])) =
     (BadRequest ''Event key is required'',
      \<lparr>db = Init [], queue = [demo_event ''a'' (utc 0) ''x''],
       stopCh_closed = False, wg = 1, sink_calls = []\<rparr>)"
  using empty_key_rejected_at_http_boundary[of utc
      "[demo_event ''a'' zero_time ''x'',
        \<lparr>Key = [], Timestamp = zero_time, Data = Text ''y''\<rparr>,
        demo_event ''c'' zero_time ''z'']" "NewLogger (Init [])"]
  by (simp add: NewLogger_def stamp_def IsZero_def zero_time_def demo_event_def)

section \<open>Flushing an empty queue\<close>










section \<open>Stopping twice\<close>

lemma apply_op_stopCh: "stopCh_closed (apply_op E l x) = stopCh_closed l"
  by (cases x)
     (auto simp: Emit_def Flush_def flush_def flush_locked_def flush_insert_def ticker_fires_def Let_def)

lemma run_stopCh: "stopCh_closed (run E l ops) = stopCh_closed l"
  unfolding run_def by (induction ops arbitrary: l) (simp_all add: apply_op_stopCh)

lemma sendEvents_stopCh: "c_stopCh_closed (snd (sendEvents N es c)) = c_stopCh_closed c"
  by (simp add: sendEvents_def Let_def split: option.splits)

lemma Client_flush_stopCh: "c_stopCh_closed (Client_flush N c) = c_stopCh_closed c"
  by (simp add: Client_flush_def Let_def sendEvents_stopCh)

lemma Client_apply_op_stopCh: "c_stopCh_closed (Client_apply_op N c x) = c_stopCh_closed c"
  by (cases x)
     (auto simp: Client_Emit_def Client_Flush_def Client_flush_stopCh Client_ticker_fires_def Let_def)

lemma Client_run_stopCh: "c_stopCh_closed (Client_run N c ops) = c_stopCh_closed c"
  unfolding Client_run_def by (induction ops arbitrary: c) (simp_all add: Client_apply_op_stopCh)

lemma Stop_closes: "Stop E l = Inr l1 \<Longrightarrow> stopCh_closed l1"
  by (auto simp: Stop_def Let_def flush_def flush_locked_def flush_insert_def split: if_splits)

lemma Client_Stop_closes: "Client_Stop N c = Inr c1 \<Longrightarrow> c_stopCh_closed c1"
  by (auto simp: Client_Stop_def Let_def Client_flush_stopCh split: if_splits)

text \<open>
  C10. \<open>Stop\<close> called a second time on the same \<open>Logger\<close> or \<open>Client\<close> panics: the
  first call, after any calls of \<open>Emit\<close>, \<open>Flush\<close> and any ticks, returns; every call
  after a \<open>Stop\<close> that returned, whatever was called in between, ends in the panic of
  closing a closed channel, not in a return.
\<close>

theorem Stop_twice_panics:
  "(\<exists>l1. Stop E (run E (NewLogger d) ops) = Inr l1)
   \<and> (Stop E l = Inr l1 \<longrightarrow> Stop E (run E l1 ops) = Inl CloseOfClosedChannel)
   \<and> (\<exists>c1. Client_Stop N (Client_run N (newHTTPClient url) ops) = Inr c1)
   \<and> (Client_Stop N c = Inr c1 \<longrightarrow> Client_Stop N (Client_run N c1 ops) = Inl CloseOfClosedChannel)"
proof -
  have a: "\<not> stopCh_closed (run E (NewLogger d) ops)"
    by (simp add: run_stopCh NewLogger_def)
  have b: "\<not> c_stopCh_closed (Client_run N (newHTTPClient url) ops)"
    by (simp add: Client_run_stopCh newHTTPClient_def)
  have c: "Stop E l = Inr l1 \<Longrightarrow> stopCh_closed (run E l1 ops)"
    by (simp add: run_stopCh Stop_closes)
  have d: "Client_Stop N c = Inr c1 \<Longrightarrow> c_stopCh_closed (Client_run N c1 ops)"
    by (simp add: Client_run_stopCh Client_Stop_closes)
  from a b c d show ?thesis
    by (auto simp: Stop_def Client_Stop_def Let_def)
qed


theorem Stop_twice_panics_witness:
  "Stop demo_env (NewLogger (Init [])) =
     Inr \<lparr>db = Init [], queue = [], stopCh_closed = True, wg = 0, sink_calls = []\<rparr>
   \<and> Stop demo_env \<lparr>db = Init [], queue = [], stopCh_closed = True, wg = 0, sink_calls = []\<rparr> =
     Inl CloseOfClosedChannel
   \<and> Client_Stop demo_net (newHTTPClient ''http://h'') =
     Inr \<lparr>serverURL = ''http://h'', c_queue = [], c_stopCh_closed = True, c_wg = 0,
          send_calls = [], posted = []\<rparr>
   \<and> Client_Stop demo_net \<lparr>serverURL = ''http://h'', c_queue = [], c_stopCh_closed = True, c_wg = 0,
          send_calls = [], posted = []\<rparr> =
     Inl CloseOfClosedChannel"
  using Stop_twice_panics[of demo_env "Init []" "[]"
      "NewLogger (Init [])" "\<lparr>db = Init [], queue = [], stopCh_closed = True, wg = 0, sink_calls = []\<rparr>"
      demo_net "''http://h''" "newHTTPClient ''http://h''"
      "\<lparr>serverURL = ''http://h'', c_queue = [], c_stopCh_closed = True, c_wg = 0,
          send_calls = [], posted = []\<rparr>"]
  by (simp add: Stop_def Client_Stop_def NewLogger_def newHTTPClient_def run_def Client_run_def
        flush_def flush_locked_def Client_flush_def Let_def)

section \<open>Reading pages\<close>

lemma set_order_by: "set (order_by_timestamp_desc rs) = set rs"
  by (simp add: order_by_timestamp_desc_def)

lemma mset_order_by: "mset (order_by_timestamp_desc rs) = mset rs"
  by (simp add: order_by_timestamp_desc_def)

lemma set_limit_offset: "set (limit_offset limit offset xs) \<subseteq> set xs"
  by (auto simp: limit_offset_def Let_def dest: in_set_takeD in_set_dropD)

lemma sorted_order_by:
  "sorted_wrt (\<lambda>a b. col_timestamp b \<le> col_timestamp a) (order_by_timestamp_desc rs)"
proof -
  have "sorted (map col_timestamp (sort_key col_timestamp (rev rs)))"
    by simp
  then have "sorted_wrt (\<lambda>a b. col_timestamp a \<le> col_timestamp b) (sort_key col_timestamp (rev rs))"
    by (simp add: sorted_wrt_map)
  then show ?thesis
    by (simp add: order_by_timestamp_desc_def sorted_wrt_rev)
qed

lemma sorted_wrt_limit_offset:
  "sorted_wrt R xs \<Longrightarrow> sorted_wrt R (limit_offset limit offset xs)"
  by (simp add: limit_offset_def Let_def sorted_wrt_take sorted_wrt_drop)

lemma scan_rows_Inr:
  "scan_rows E rs acc = Inr events \<Longrightarrow>
   \<exists>evs. events = acc @ evs \<and> map Some evs = map (event_of E) rs"
proof (induction rs arbitrary: acc)
  case Nil
  then show ?case by simp
next
  case (Cons r rs)
  from Cons.prems obtain e where e: "event_of E r = Some e"
    and rest: "scan_rows E rs (acc @ [e]) = Inr events"
    by (auto simp: event_of_def split: option.splits)
  from Cons.IH[OF rest] obtain evs where "events = (acc @ [e]) @ evs"
    "map Some evs = map (event_of E) rs" by blast
  with e show ?case
    by (intro exI[of _ "e # evs"]) simp
qed

text \<open>
  What \<open>GetEvents\<close> returns is the window, cut by the limit and the offset, out of all
  rows in descending order of their stored timestamp texts. The events come newest
  first whenever the stored texts are ordered as the instants they stand for.
\<close>

lemma GetEvents_window:
  assumes "GetEvents E d limit offset = Inr (events, n)"
  shows "map Some events =
      map (event_of E) (limit_offset limit offset (order_by_timestamp_desc (rows d)))"
    and "n = int (length (rows d))"
proof -
  let ?page = "limit_offset limit offset (order_by_timestamp_desc (rows d))"
  from assms have "scan_rows E ?page [] = Inr events" and n: "n = int (length (rows d))"
    by (auto simp: GetEvents_def Let_def split: if_splits sum.splits)
  from scan_rows_Inr[OF this(1)] show "map Some events = map (event_of E) ?page"
    by simp
  from n show "n = int (length (rows d))" .
qed

lemma GetEvents_newest_first_if_texts_agree:
  assumes "GetEvents E d limit offset = Inr (events, n)"
    and "\<forall>a\<in>set (rows d). \<forall>b\<in>set (rows d). col_timestamp a \<le> col_timestamp b \<longrightarrow>
           instant (time_Scan E (col_timestamp a)) \<le> instant (time_Scan E (col_timestamp b))"
  shows "sorted_wrt (\<lambda>a b. instant (Timestamp b) \<le> instant (Timestamp a)) events"
proof -
  let ?page = "limit_offset limit offset (order_by_timestamp_desc (rows d))"
  let ?i = "\<lambda>r. instant (time_Scan E (col_timestamp r))"
  have sub: "set ?page \<subseteq> set (rows d)"
    using set_limit_offset[of limit offset "order_by_timestamp_desc (rows d)"]
    by (simp add: set_order_by)
  have "sorted_wrt (\<lambda>a b. col_timestamp b \<le> col_timestamp a) ?page"
    by (rule sorted_wrt_limit_offset) (rule sorted_order_by)
  then have sp: "sorted_wrt (\<lambda>a b. ?i b \<le> ?i a) ?page"
    by (rule sorted_wrt_mono_rel[rotated]) (use sub assms(2) in blast)
  have ev: "map Some events = map (event_of E) ?page"
    by (rule GetEvents_window(1)) (rule assms(1))
  have "map (\<lambda>e. instant (Timestamp e)) events = map ?i ?page"
  proof -
    have "map (\<lambda>x. map_option (\<lambda>e. instant (Timestamp e)) x) (map Some events) =
        map (\<lambda>x. map_option (\<lambda>e. instant (Timestamp e)) x) (map (event_of E) ?page)"
      by (simp only: ev)
    moreover have "\<forall>r\<in>set ?page. event_of E r \<noteq> None"
    proof
      fix r assume "r \<in> set ?page"
      then have "event_of E r \<in> set (map (event_of E) ?page)" by simp
      then have "event_of E r \<in> set (map Some events)" by (simp only: ev)
      then show "event_of E r \<noteq> None" by auto
    qed
    then have "\<forall>r\<in>set ?page. map_option (\<lambda>e. instant (Timestamp e)) (event_of E r) = Some (?i r)"
      by (auto simp: event_of_def split: option.splits)
    ultimately have "map Some (map (\<lambda>e. instant (Timestamp e)) events) = map Some (map ?i ?page)"
      by (simp add: comp_def cong: map_cong)
    then have "map the (map Some (map (\<lambda>e. instant (Timestamp e)) events)) =
        map the (map Some (map ?i ?page))"
      by (simp only:)
    then show ?thesis
      by (simp add: comp_def)
  qed
  with sp have "sorted_wrt (\<lambda>x y. y \<le> x) (map (\<lambda>e. instant (Timestamp e)) events)"
    by (simp add: sorted_wrt_map)
  then show ?thesis
    by (simp add: sorted_wrt_map)
qed

text \<open>
  C3. Retrieval ordering, at an input where the code departs from it. The five events
  of \<open>demo_mixed_events\<close>, numbered 0 to 4, have strictly increasing instants; events 0
  to 3 carry the zone offset \<open>+02:00\<close>, event 4 is in UTC. Once they are inserted,
  \<open>GetEvents(2, 0)\<close> returns events 3 and 2, not the newest two (4 and 3), and
  \<open>GetEvents(2, 4)\<close> returns event 4, the newest, not the oldest (event 0): the store
  orders the texts of the wall-clock times, and \<open>2024-01-01 00:00:00+00:00\<close> is the
  least of them.
\<close>

theorem GetEvents_mixed_zones_not_newest_first:
  "fst (InsertEvents demo_env (Init []) demo_mixed_events) = None
   \<and> sorted_wrt (<) (map (\<lambda>e. instant (Timestamp e)) demo_mixed_events)
   \<and> GetEvents demo_env (snd (InsertEvents demo_env (Init []) demo_mixed_events)) 2 0 =
       Inr ([demo_event ''p'' (east 4) ''3'', demo_event ''p'' (east 3) ''2''], 5)
   \<and> GetEvents demo_env (snd (InsertEvents demo_env (Init []) demo_mixed_events)) 2 4 =
       Inr ([demo_event ''p'' (utc 0) ''4''], 5)"
  by (simp add: InsertEvents_def Init_def demo_mixed_events_def demo_event_def demo_env_def
        demo_times_def utc_def east_def upt_rec GetEvents_def limit_offset_def
        order_by_timestamp_desc_def)

section \<open>Pagination\<close>

lemma limit_offset_nat:
  "limit_offset (int L) (int k * int L) xs = take L (drop (k * L) xs)"
proof -
  have "nat (int k * int L) = k * L"
    by (simp add: nat_mult_distrib)
  then show ?thesis
    by (simp add: limit_offset_def)
qed

lemma concat_pages:
  "concat (map (\<lambda>k. take L (drop (k * L) xs)) [0..<n]) = take (n * L) xs"
proof (induction n)
  case 0
  then show ?case by simp
next
  case (Suc n)
  have "take (Suc n * L) xs = take (n * L) xs @ take L (drop (n * L) xs)"
    using take_add[of "n * L" L xs] by (simp add: add.commute)
  with Suc show ?case by simp
qed

lemma pages_cover:
  fixes T L :: nat
  assumes "1 \<le> L"
  shows "T \<le> ((T + L - 1) div L) * L"
proof -
  have "T + L - 1 < ((T + L - 1) div L) * L + L"
    using assms div_mult_mod_eq[of "T + L - 1" L] mod_less_divisor[of L "T + L - 1"] by linarith
  with assms show ?thesis by linarith
qed

lemma page_count:
  fixes T L :: nat
  assumes "1 \<le> L"
  shows "(T + L - 1) div L = (if T mod L = 0 then T div L else T div L + 1)"
proof -
  from assms obtain L' where L: "L = Suc L'" by (cases L) auto
  define q where "q = T div L"
  define r where "r = T mod L"
  have T: "T = q * L + r" and rL: "r < L"
    using assms by (simp_all add: q_def r_def)
  show ?thesis
  proof (cases "r = 0")
    case True
    have "T + L - 1 = q * L + L'" using True T L by simp
    moreover have "L' < L" using L by simp
    then have "(q * L + L') div L = q" by simp
    ultimately show ?thesis using True by (simp add: q_def r_def)
  next
    case False
    then obtain r' where r': "r = Suc r'" by (cases r) auto
    have "T + L - 1 = (q + 1) * L + r'" using T L r' by simp
    moreover have "r' < L" using rL r' by simp
    then have "((q + 1) * L + r') div L = q + 1" by (simp del: mult_Suc)
    ultimately show ?thesis using False by (simp add: q_def r_def)
  qed
qed

lemma last_page_offset:
  fixes T L :: nat
  assumes "1 \<le> L" "0 < T"
  shows "T - ((T + L - 1) div L - 1) * L = (if T mod L = 0 then L else T mod L)"
proof -
  define q where "q = T div L"
  define r where "r = T mod L"
  have T: "T = q * L + r" and rL: "r < L"
    using assms by (simp_all add: q_def r_def)
  show ?thesis
  proof (cases "r = 0")
    case True
    with assms T obtain q' where q': "q = Suc q'" by (cases q) auto
    have "(T + L - 1) div L = q"
      using page_count[OF assms(1), of T] True by (simp add: q_def r_def)
    moreover have "T - (q - 1) * L = L" using T True q' by simp
    ultimately show ?thesis using True by (simp add: r_def)
  next
    case False
    have "(T + L - 1) div L = q + 1"
      using page_count[OF assms(1), of T] False by (simp add: q_def r_def)
    moreover have "T - q * L = r" using T by simp
    ultimately show ?thesis using False by (simp add: r_def)
  qed
qed

text \<open>
  C4. Pagination completeness. On an open store whose rows all decode, with \<open>T\<close> rows
  and a limit \<open>L\<close> of at least 1: every page \<open>GetEvents(L, k * L)\<close> is returned without
  error and reports the total \<open>T\<close>; the pages \<open>k = 0, 1, ...\<close> up to the page count
  \<open>(T + L - 1) div L\<close>, one after the other, are the whole list of the stored events in
  the order of the query, each stored event exactly once; every later page is empty; and
  the last of these pages holds \<open>T mod L\<close> events, or \<open>L\<close> when \<open>L\<close> divides \<open>T\<close>.
\<close>

theorem pagination_complete:
  assumes "conn_open d" and "\<forall>r\<in>set (rows d). event_of E r \<noteq> None" and "1 \<le> L"
  shows "(\<forall>k. \<exists>events. GetEvents E d (int L) (int k * int L) = Inr (events, int (length (rows d))))
   \<and> concat (map (\<lambda>k. page_events (GetEvents E d (int L) (int k * int L)))
        [0..<(length (rows d) + L - 1) div L])
      = List.map_filter (event_of E) (order_by_timestamp_desc (rows d))
   \<and> mset (concat (map (\<lambda>k. page_events (GetEvents E d (int L) (int k * int L)))
        [0..<(length (rows d) + L - 1) div L]))
      = mset (List.map_filter (event_of E) (rows d))
   \<and> (\<forall>k. (length (rows d) + L - 1) div L \<le> k \<longrightarrow>
         page_events (GetEvents E d (int L) (int k * int L)) = [])
   \<and> (0 < length (rows d) \<longrightarrow>
         length (page_events (GetEvents E d (int L)
            (int ((length (rows d) + L - 1) div L - 1) * int L))) =
         (if length (rows d) mod L = 0 then L else length (rows d) mod L))"
proof -
  let ?T = "length (rows d)"
  let ?np = "(?T + L - 1) div L"
  let ?sorted = "order_by_timestamp_desc (rows d)"
  let ?all = "List.map_filter (event_of E) ?sorted"
  have dec: "\<forall>r\<in>set ?sorted. event_of E r \<noteq> None"
    using assms(2) by (simp add: set_order_by)
  have all_map: "?all = map (\<lambda>r. the (event_of E r)) ?sorted"
    by (rule map_filter_all) (rule dec)
  have len_all: "length ?all = ?T"
    by (simp add: all_map length_order_by)
  have page: "GetEvents E d (int L) (int k * int L) = Inr (take L (drop (k * L) ?all), int ?T)" for k
  proof -
    let ?p = "take L (drop (k * L) ?sorted)"
    have "\<forall>r\<in>set ?p. event_of E r \<noteq> None"
      using dec by (auto dest!: in_set_takeD in_set_dropD)
    then have "scan_rows E ?p [] = Inr (List.map_filter (event_of E) ?p)"
      using scan_rows_all[of ?p E "[]"] by simp
    moreover have "List.map_filter (event_of E) ?p = map (\<lambda>r. the (event_of E r)) ?p"
      by (rule map_filter_all) fact
    ultimately have "scan_rows E ?p [] = Inr (take L (drop (k * L) ?all))"
      by (simp add: all_map take_map drop_map)
    then show ?thesis
      unfolding GetEvents_def Let_def limit_offset_nat using assms(1) by simp
  qed
  have pe: "page_events (GetEvents E d (int L) (int k * int L)) = take L (drop (k * L) ?all)" for k
    by (simp add: page page_events_def)
  have cover: "?T \<le> ?np * L"
    by (rule pages_cover) (rule assms(3))
  have cat: "concat (map (\<lambda>k. page_events (GetEvents E d (int L) (int k * int L))) [0..<?np]) = ?all"
    using cover by (simp add: pe concat_pages len_all)
  have ms: "mset ?all = mset (List.map_filter (event_of E) (rows d))"
  proof -
    have "List.map_filter (event_of E) (rows d) = map (\<lambda>r. the (event_of E r)) (rows d)"
      by (rule map_filter_all) (rule assms(2))
    then show ?thesis
      unfolding all_map by (simp add: order_by_timestamp_desc_def)
  qed
  have beyond: "page_events (GetEvents E d (int L) (int k * int L)) = []" if "?np \<le> k" for k
  proof -
    from that have "?np * L \<le> k * L" by simp
    with cover have "?T \<le> k * L" by linarith
    then show ?thesis by (simp add: pe len_all)
  qed
  have lastp: "length (page_events (GetEvents E d (int L) (int (?np - 1) * int L))) =
      (if ?T mod L = 0 then L else ?T mod L)" if "0 < ?T"
  proof -
    have "length (take L (drop ((?np - 1) * L) ?all)) = min L (?T - (?np - 1) * L)"
      by (simp add: len_all min.commute)
    also have "?T - (?np - 1) * L = (if ?T mod L = 0 then L else ?T mod L)"
      by (rule last_page_offset) (use assms(3) that in simp_all)
    also have "min L (if ?T mod L = 0 then L else ?T mod L) = (if ?T mod L = 0 then L else ?T mod L)"
    proof -
      have "?T mod L < L" using assms(3) by simp
      then show ?thesis by (simp add: min_def)
    qed
    finally show ?thesis by (simp add: pe)
  qed
  from page cat ms beyond lastp show ?thesis
    by (simp only: cat) blast
qed

theorem pagination_complete_witness:
  "conn_open (Init demo_rows) \<and> (1::nat) \<le> 2
   \<and> concat (map (\<lambda>k. page_events (GetEvents demo_env (Init demo_rows) (int 2) (int k * int 2)))
        [0..<(length (rows (Init demo_rows)) + 2 - 1) div 2]) =
       [demo_event ''p'' (utc 4) ''4'', demo_event ''p'' (utc 3) ''3'',
        demo_event ''p'' (utc 2) ''2'', demo_event ''p'' (utc 1) ''1'',
        demo_event ''p'' (utc 0) ''0'']
   \<and> length (page_events (GetEvents demo_env (Init demo_rows) (int 2)
        (int ((length (rows (Init demo_rows)) + 2 - 1) div 2 - 1) * int 2))) = 1"
  using pagination_complete[of "Init demo_rows" demo_env 2]
  by (simp add: Init_def demo_rows_def demo_row_def event_of_def demo_env_def demo_event_def
        order_by_timestamp_desc_def List.map_filter_simps demo_times_def utc_def east_def upt_rec)

section \<open>Durability\<close>



lemma run_append: "run E l (xs @ ys) = run E (run E l xs) ys"
  by (simp add: run_def)











section \<open>After Stop\<close>

lemma wg_apply_op: "wg (apply_op E l x) = wg l"
  by (cases x)
     (auto simp: Emit_def Flush_def flush_def flush_locked_def flush_insert_def ticker_fires_def Let_def)

lemma wg_run: "wg (run E l ops) = wg l"
  unfolding run_def by (induction ops arbitrary: l) (simp_all add: wg_apply_op)

lemma run_without_ticks:
  "wg l = 0 \<Longrightarrow> run E l ops = run E l (filter (\<lambda>x. x \<noteq> OpTick) ops)"
proof (induction ops arbitrary: l)
  case Nil
  then show ?case by (simp add: run_def)
next
  case (Cons x ops)
  have step: "run E l (y # ys) = run E (apply_op E l y) ys" for y ys
    by (simp add: run_def)
  show ?case
  proof (cases "x = OpTick")
    case True
    with Cons.prems have "apply_op E l x = l" by (simp add: ticker_fires_def)
    with True Cons show ?thesis by (simp add: step)
  next
    case False
    have "wg (apply_op E l x) = 0" using Cons.prems by (simp add: wg_apply_op)
    from Cons.IH[OF this] False show ?thesis by (simp add: step)
  qed
qed

text \<open>
  C7, as stated, fails: after \<open>Stop\<close> has returned, an event emitted and then flushed
  by hand is handed to the store and its row is there.
\<close>

theorem flush_after_Stop_counterexample:
  "Stop demo_env (NewLogger (Init [])) =
     Inr \<lparr>db = Init [], queue = [], stopCh_closed = True, wg = 0, sink_calls = []\<rparr>
   \<and> Flush demo_env (snd (Emit (utc 7) (demo_event ''late'' zero_time ''x'')
        \<lparr>db = Init [], queue = [], stopCh_closed = True, wg = 0, sink_calls = []\<rparr>)) =
     \<lparr>db = Init [demo_row ''late'' ''2024-01-01 00:00:07+00:00'' ''x''], queue = [],
      stopCh_closed = True, wg = 0, sink_calls = [[demo_event ''late'' (utc 7) ''x'']]\<rparr>"
  by (simp add: Stop_def NewLogger_def Init_def Flush_def flush_def flush_locked_def
        flush_insert_def Emit_def IsZero_def zero_time_def demo_event_def demo_row_def
        InsertEvents_def demo_env_def Let_def demo_times_def utc_def east_def upt_rec)

text \<open>
  C7, amended. Once \<open>Stop\<close> has returned the worker has returned too (the wait group is
  at 0): a period elapsing drains nothing any more, so ticks can be struck from any later
  sequence of calls without changing its outcome. A manual \<open>Flush\<close> is not disabled: it
  still hands whatever is in the queue to the sink (and does nothing on an empty queue).
\<close>

theorem no_periodic_drain_after_Stop:
  assumes "Stop E (run E (NewLogger d) ops0) = Inr l1"
  shows "wg l1 = 0
   \<and> ticker_fires E (run E l1 ops) = run E l1 ops
   \<and> run E l1 ops = run E l1 (filter (\<lambda>x. x \<noteq> OpTick) ops)
   \<and> sink_calls (Flush E (run E l1 ops)) =
       sink_calls (run E l1 ops) @ (if queue (run E l1 ops) = [] then [] else [queue (run E l1 ops)])"
proof -
  have "wg (run E (NewLogger d) ops0) = 1"
    by (simp add: wg_run NewLogger_def)
  with assms have w: "wg l1 = 0"
    by (auto simp: Stop_def Let_def split: if_splits)
  then have "wg (run E l1 ops) = 0" by (simp add: wg_run)
  then have t: "ticker_fires E (run E l1 ops) = run E l1 ops"
    by (simp add: ticker_fires_def)
  have f: "sink_calls (Flush E l) = sink_calls l @ (if queue l = [] then [] else [queue l])" for l
    by (simp add: Flush_def flush_def flush_locked_def flush_insert_def)
  from w t f run_without_ticks[OF w] show ?thesis by blast
qed

theorem no_periodic_drain_after_Stop_witness:
  "Stop demo_env (run demo_env (NewLogger (Init [])) []) =
     Inr \<lparr>db = Init [], queue = [], stopCh_closed = True, wg = 0, sink_calls = []\<rparr>
   \<and> ticker_fires demo_env (run demo_env
        \<lparr>db = Init [], queue = [], stopCh_closed = True, wg = 0, sink_calls = []\<rparr>
        [OpEmit (utc 7) (demo_event ''late'' zero_time ''x'')]) =
     \<lparr>db = Init [], queue = [demo_event ''late'' (utc 7) ''x''], stopCh_closed = True, wg = 0,
      sink_calls = []\<rparr>"
  using no_periodic_drain_after_Stop[of demo_env "Init []" "[]"
      "\<lparr>db = Init [], queue = [], stopCh_closed = True, wg = 0, sink_calls = []\<rparr>"
      "[OpEmit (utc 7) (demo_event ''late'' zero_time ''x'')]"]
  by (simp add: Stop_def NewLogger_def run_def flush_def flush_locked_def Emit_def IsZero_def
        zero_time_def demo_event_def Let_def)

section \<open>Stop and the last flush\<close>

lemma InsertEvents_rows:
  "conn_open (snd (InsertEvents E d b)) = conn_open d
   \<and> rows (snd (InsertEvents E d b)) =
       rows d @ (if conn_open d \<and> batch_ok E b then List.map_filter (row_of E) b else [])"
proof (cases "\<forall>e\<in>set b. row_of E e \<noteq> None")
  case True
  from insert_loop_succeeds[OF True, of "[]"] obtain rs where
    rs: "insert_loop E b [] = Inr rs" "map Some rs = map (row_of E) b" by auto
  have "map the (map Some rs) = map the (map (row_of E) b)"
    using rs(2) by simp
  then have "rs = map (\<lambda>e. the (row_of E e)) b"
    by (simp add: comp_def)
  then have "rs = List.map_filter (row_of E) b"
    using map_filter_all[OF True] by simp
  with rs(1) True show ?thesis
    by (simp add: InsertEvents_def batch_ok_def list_all_iff)
next
  case False
  then have "\<exists>e\<in>set b. row_of E e = None" by auto
  from insert_loop_fails[OF this, of "[]"] obtain err where
    "insert_loop E b [] = Inl err" by blast
  with False show ?thesis
    by (auto simp: InsertEvents_def batch_ok_def list_all_iff)
qed

lemma stored_rows_snoc:
  "stored_rows E (bs @ [b]) =
     stored_rows E bs @ (if batch_ok E b then List.map_filter (row_of E) b else [])"
  by (simp add: stored_rows_def)

lemma invariant_start: "invariant E d (start_system d)"
  by (simp add: invariant_def start_system_def NewLogger_def stored_rows_def)

lemma mset_remove_nth:
  "i < length xs \<Longrightarrow> mset (concat (take i xs @ drop (Suc i) xs)) + mset (xs ! i) = mset (concat xs)"
proof -
  assume "i < length xs"
  then have "xs = take i xs @ (xs ! i) # drop (Suc i) xs"
    by (simp add: id_take_nth_drop)
  then have "mset (concat xs) = mset (concat (take i xs @ (xs ! i) # drop (Suc i) xs))"
    by simp
  then show ?thesis by (simp add: ac_simps)
qed

lemma invariant_act:
  assumes "invariant E d s" and "act E s a = Some s1"
  shows "invariant E d s1"
proof (cases a)
  case (A_Emit now e)
  with assms show ?thesis
    by (auto simp: invariant_def Emit_eq intro: subset_mset.add_mono)
next
  case A_Tick
  with assms show ?thesis
    by (auto simp: invariant_def flush_locked_def split: if_splits)
next
  case A_StopCase
  with assms show ?thesis
    by (auto simp: invariant_def flush_locked_def split: if_splits)
next
  case A_WorkerInsert
  with assms show ?thesis
    by (auto simp: invariant_def flush_insert_def Let_def InsertEvents_rows stored_rows_snoc
        split: worker.splits if_splits)
next
  case A_StopCall
  with assms show ?thesis
    by (auto simp: invariant_def split: if_splits)
next
  case A_StopReturn
  with assms show ?thesis
    by (auto simp: invariant_def split: if_splits)
next
  case A_FlushLocked
  with assms show ?thesis
    by (auto simp: invariant_def flush_locked_def split: if_splits)
next
  case (A_FlushInsert i)
  with assms have i: "i < length (in_flight s)" by (auto split: if_splits)
  from mset_remove_nth[OF i] A_FlushInsert assms i show ?thesis
    by (auto simp: invariant_def flush_insert_def InsertEvents_rows stored_rows_snoc ac_simps
        split: if_splits)
qed

lemma invariant_exec:
  "invariant E d s \<Longrightarrow> exec E s acts = Some s1 \<Longrightarrow> invariant E d s1"
  by (induction acts arbitrary: s) (auto split: option.splits intro: invariant_act)


lemma stored_rows_all_ok:
  "\<forall>b\<in>set bs. batch_ok E b \<Longrightarrow> stored_rows E bs = List.map_filter (row_of E) (concat bs)"
proof (induction bs)
  case Nil
  then show ?case by (simp add: stored_rows_def List.map_filter_simps)
next
  case (Cons b bs)
  have app: "List.map_filter f (xs @ ys) = List.map_filter f xs @ List.map_filter f ys" for f :: "'a Event \<Rightarrow> row option" and xs ys
    by (simp add: List.map_filter_def)
  from Cons show ?case
    by (simp add: stored_rows_def app)
qed

text \<open>
  C6, as stated, fails: an event is emitted; a manual \<open>Flush\<close> on another goroutine takes
  it out of the queue and has not yet called the store; \<open>Stop\<close> is called, the worker's
  last flush finds the queue empty, the worker returns and \<open>Stop\<close> returns. The event,
  emitted before \<open>Stop\<close> was called, has been handed to no sink and is in no row.
\<close>

theorem Stop_returns_before_manual_flush_counterexample:
  "exec demo_env (start_system (Init []))
      [A_Emit (utc 1) (demo_event ''e'' zero_time ''x''), A_FlushLocked, A_StopCall, A_StopCase,
       A_StopReturn] =
     Some \<lparr>logger = \<lparr>db = Init [], queue = [], stopCh_closed = True, wg = 0, sink_calls = []\<rparr>,
           worker = WorkerReturned, stop_call = StopReturned,
           in_flight = [[demo_event ''e'' (utc 1) ''x'']],
           emitted = [demo_event ''e'' (utc 1) ''x''], emitted_before_stop = 1\<rparr>"
  by (simp add: start_system_def NewLogger_def Emit_def stamp_def IsZero_def zero_time_def
        demo_event_def flush_locked_def Let_def)

text \<open>
  C6, amended. In every execution, \<open>Stop\<close> returns only after the worker has finished its
  last flush and returned. At that moment whatever is still queued was emitted after
  \<open>Stop\<close> was called, and every event emitted before \<open>Stop\<close> was called has been
  handed to the sink, except those held by a manual \<open>Flush\<close> still in flight on another
  goroutine (none, if no such call is in flight); and when the store is open and takes
  every event handed to it, the rows of all events handed to the sink are stored.
\<close>

theorem Stop_waits_for_last_flush:
  assumes "exec E (start_system d) acts = Some s" and "stop_call s = StopReturned"
  shows "worker s = WorkerReturned \<and> wg (logger s) = 0
   \<and> mset (queue (logger s)) \<subseteq># mset (drop (emitted_before_stop s) (emitted s))
   \<and> mset (take (emitted_before_stop s) (emitted s)) \<subseteq>#
       mset (concat (sink_calls (logger s))) + mset (concat (in_flight s))
   \<and> (in_flight s = [] \<longrightarrow>
       mset (take (emitted_before_stop s) (emitted s)) \<subseteq># mset (concat (sink_calls (logger s))))
   \<and> (conn_open d \<and> (\<forall>b\<in>set (sink_calls (logger s)). batch_ok E b) \<longrightarrow>
       rows (db (logger s)) = rows d @ List.map_filter (row_of E) (concat (sink_calls (logger s))))"
proof -
  have inv: "invariant E d s"
    using invariant_exec[OF invariant_start assms(1)] .
  from inv assms(2) have w: "worker s = WorkerReturned" and g: "wg (logger s) = 0"
    by (simp_all add: invariant_def)
  let ?before = "take (emitted_before_stop s) (emitted s)"
  let ?after = "drop (emitted_before_stop s) (emitted s)"
  let ?sink = "mset (concat (sink_calls (logger s))) + mset (concat (in_flight s))"
  from inv w have q: "mset (queue (logger s)) \<subseteq># mset ?after"
    by (simp add: invariant_def)
  from inv w have total: "mset (emitted s) = ?sink + mset (queue (logger s))"
    by (simp add: invariant_def)
  have split: "mset (emitted s) = mset ?before + mset ?after"
    by (metis append_take_drop_id mset_append)
  from q obtain rest where rest: "mset ?after = mset (queue (logger s)) + rest"
    by (auto simp: subset_mset.le_iff_add)
  from total split rest have "mset ?before + rest = ?sink"
    by (simp add: ac_simps)
  then have handed: "mset ?before \<subseteq># ?sink"
    by (metis mset_subset_eq_add_left)
  have durable: "rows (db (logger s)) =
      rows d @ List.map_filter (row_of E) (concat (sink_calls (logger s)))"
    if "conn_open d" and "\<forall>b\<in>set (sink_calls (logger s)). batch_ok E b"
    using inv that stored_rows_all_ok[OF that(2)] by (simp add: invariant_def)
  from w g q handed durable show ?thesis
    by auto
qed

theorem Stop_waits_for_last_flush_witness:
  "exec demo_env (start_system (Init []))
      [A_Emit (utc 1) (demo_event ''e'' zero_time ''x''), A_StopCall, A_StopCase, A_WorkerInsert,
       A_StopReturn] =
     Some \<lparr>logger = \<lparr>db = Init [demo_row ''e'' ''2024-01-01 00:00:01+00:00'' ''x''],
                      queue = [], stopCh_closed = True, wg = 0,
                      sink_calls = [[demo_event ''e'' (utc 1) ''x'']]\<rparr>,
           worker = WorkerReturned, stop_call = StopReturned, in_flight = [],
           emitted = [demo_event ''e'' (utc 1) ''x''], emitted_before_stop = 1\<rparr>
   \<and> mset (take 1 [demo_event ''e'' (utc 1) ''x'']) \<subseteq>#
       mset (concat [[demo_event ''e'' (utc 1) ''x'']])"
proof -
  have run: "exec demo_env (start_system (Init []))
      [A_Emit (utc 1) (demo_event ''e'' zero_time ''x''), A_StopCall, A_StopCase, A_WorkerInsert,
       A_StopReturn] =
     Some \<lparr>logger = \<lparr>db = Init [demo_row ''e'' ''2024-01-01 00:00:01+00:00'' ''x''],
                      queue = [], stopCh_closed = True, wg = 0,
                      sink_calls = [[demo_event ''e'' (utc 1) ''x'']]\<rparr>,
           worker = WorkerReturned, stop_call = StopReturned, in_flight = [],
           emitted = [demo_event ''e'' (utc 1) ''x''], emitted_before_stop = 1\<rparr>"
    by (simp add: start_system_def NewLogger_def Emit_def stamp_def IsZero_def zero_time_def
          demo_event_def demo_row_def flush_locked_def flush_insert_def InsertEvents_def Init_def
          demo_env_def Let_def demo_times_def utc_def east_def upt_rec)
  from Stop_waits_for_last_flush[OF run] run show ?thesis
    by simp
qed

lemma Stop_is_an_execution:
  assumes "worker s = AtSelect" and "wg (logger s) = 1" and "Stop E (logger s) = Inr l1"
  shows "\<exists>acts s1. exec E s acts = Some s1 \<and> logger s1 = l1 \<and> stop_call s1 = StopReturned"
proof -
  let ?s1 = "s\<lparr>logger := l1, worker := WorkerReturned, stop_call := StopReturned,
              emitted_before_stop := length (emitted s)\<rparr>"
  let ?acts = "if queue (logger s) = [] then [A_StopCall, A_StopCase, A_StopReturn]
      else [A_StopCall, A_StopCase, A_WorkerInsert, A_StopReturn]"
  from assms have "exec E s ?acts = Some ?s1"
    by (auto simp: Stop_def Let_def flush_def flush_locked_def flush_insert_def split: if_splits)
  then have "exec E s ?acts = Some ?s1 \<and> logger ?s1 = l1 \<and> stop_call ?s1 = StopReturned"
    by simp
  then show ?thesis by blast
qed

end
